theory Spec2Isabelle
  imports Main "HOL-Library.Word" "HOL-Library.Multiset"
begin

section \<open>The grouper: bounded, count-ordered selection of groups\<close>

text \<open>
  The aggregator's grouper tallies document ids per group-by value and then
  feeds every tally entry to \<open>insertOrdered\<close>, which maintains the ranked list
  \<open>topGroups\<close>.  The Go \<open>int\<close> fields \<open>Count\<close> and \<open>limit\<close> are modelled as
  \<open>int\<close>: a count is the length of a slice, and the limit is compared and
  never used in arithmetic, so no wrap-around can occur.  The tally
  \<open>g.values\<close> is a Go map whose iteration order is chosen by the runtime;
  it is modelled as the association list of its entries in the order in
  which \<open>range\<close> yields them, so a statement for all lists is a statement for
  all iteration orders.
\<close>

record 'v group =
  Value :: 'v
  Count :: int
  docIDs :: "64 word list"

record 'v grouper =
  values_of :: "('v \<times> 64 word list) list"
  topGroups :: "'v group list"
  limit :: int

text \<open>
  The \<open>for i, existing := range g.topGroups\<close> loop of \<open>insertOrdered\<close>:
  entries with a strictly greater count are skipped, the element is spliced
  in before the first other entry and the loop is left.  The result is the
  new slice and the flag \<open>added\<close>.
\<close>

fun insert_scan :: "'v group list \<Rightarrow> 'v group \<Rightarrow> 'v group list \<times> bool" where
  "insert_scan [] elem = ([], False)"
| "insert_scan (existing # rest) elem =
     (if Count existing > Count elem
      then (case insert_scan rest elem of (r, added) \<Rightarrow> (existing # r, added))
      else (elem # existing # rest, True))"

definition insertOrdered :: "'v grouper \<Rightarrow> 'v group \<Rightarrow> 'v grouper" where
  "insertOrdered g elem =
     (if length (topGroups g) = 0 then g\<lparr>topGroups := [elem]\<rparr>
      else
        (case insert_scan (topGroups g) elem of (tg1, added) \<Rightarrow>
           let tg2 = (if int (length tg1) > limit g
                      then take (length tg1 - 1) tg1 else tg1);
               tg3 = (if \<not> added \<and> int (length tg2) < limit g
                      then tg2 @ [elem] else tg2)
           in g\<lparr>topGroups := tg3\<rparr>))"

definition mk_group :: "'v \<times> 64 word list \<Rightarrow> 'v group" where
  "mk_group e = \<lparr>Value = fst e, Count = int (length (snd e)), docIDs = snd e\<rparr>"

definition aggregateAndSelect :: "'v grouper \<Rightarrow> 'v group list" where
  "aggregateAndSelect g =
     topGroups (foldl (\<lambda>g' e. insertOrdered g' (mk_group e)) g (values_of g))"

definition newGrouper :: "int \<Rightarrow> 'v grouper" where
  "newGrouper lim = \<lparr>values_of = [], topGroups = [], limit = lim\<rparr>"

text \<open>\<open>addItem\<close>: append the document id to the tally entry of the value.\<close>

fun tally_add :: "('v \<times> 64 word list) list \<Rightarrow> 'v \<Rightarrow> 64 word \<Rightarrow> ('v \<times> 64 word list) list" where
  "tally_add [] item docID = [(item, [docID])]"
| "tally_add ((k, ids) # rest) item docID =
     (if k = item then (k, ids @ [docID]) # rest
      else (k, ids) # tally_add rest item docID)"

definition addItem :: "'v grouper \<Rightarrow> 'v \<Rightarrow> 64 word \<Rightarrow> 'v grouper" where
  "addItem g item docID = g\<lparr>values_of := tally_add (values_of g) item docID\<rparr>"

definition grouper_inv :: "'v grouper \<Rightarrow> bool" where
  "grouper_inv g \<longleftrightarrow>
     sorted_wrt (\<lambda>a b. a \<ge> b) (map Count (topGroups g)) \<and>
     int (length (topGroups g)) \<le> limit g"


section \<open>The inverted index: fetching and merging posting lists\<close>

subsection \<open>Errors\<close>

text \<open>
  A Go \<open>error\<close> is represented by its message.  \<open>errors.Errorf\<close> builds the
  message, \<open>errors.Wrapf\<close> prefixes the message of the cause with the context
  and a colon.  \<open>show_nat\<close> renders the \<open>%d\<close> verb for a loop index.
\<close>

datatype error = Error string

fun message :: "error \<Rightarrow> string" where
  "message (Error m) = m"

definition Wrapf :: "error \<Rightarrow> string \<Rightarrow> error" where
  "Wrapf err ctx = Error (ctx @ '': '' @ message err)"

definition digit :: "nat \<Rightarrow> char" where
  "digit n = ''0123456789'' ! n"

function show_nat :: "nat \<Rightarrow> string" where
  "show_nat n = (if n < 10 then [digit n] else show_nat (n div 10) @ [digit (n mod 10)])"
  by pat_completeness auto
termination
  by (relation "measure (\<lambda>n. n)") auto

subsection \<open>Filter operators\<close>

text \<open>
  Modelled from the spec: the package \<open>filters\<close>, which declares the type
  \<open>Operator\<close> and its methods \<open>OnValue\<close> and \<open>Name\<close>, is not among the sources.
  The constructors are the operators the specification names for leaf
  clauses and for internal nodes; \<open>OnValue\<close> holds for the leaf operators
  (those that carry a path and a value) and fails for the internal nodes
  \<open>And\<close> and \<open>Or\<close>; the name of an operator is its name in the
  specification.
\<close>

datatype Operator =
    OperatorEqual
  | OperatorNotEqual
  | OperatorGreaterThan
  | OperatorGreaterThanEqual
  | OperatorLessThan
  | OperatorLessThanEqual
  | OperatorLike
  | OperatorWithinGeoRange
  | OperatorIsNull
  | OperatorAnd
  | OperatorOr

fun OnValue :: "Operator \<Rightarrow> bool" where
  "OnValue OperatorAnd = False"
| "OnValue OperatorOr = False"
| "OnValue _ = True"

fun Name :: "Operator \<Rightarrow> string" where
  "Name OperatorEqual = ''Equal''"
| "Name OperatorNotEqual = ''NotEqual''"
| "Name OperatorGreaterThan = ''GreaterThan''"
| "Name OperatorGreaterThanEqual = ''GreaterThanEqual''"
| "Name OperatorLessThan = ''LessThan''"
| "Name OperatorLessThanEqual = ''LessThanEqual''"
| "Name OperatorLike = ''Like''"
| "Name OperatorWithinGeoRange = ''WithinGeoRange''"
| "Name OperatorIsNull = ''IsNull''"
| "Name OperatorAnd = ''And''"
| "Name OperatorOr = ''Or''"

subsection \<open>Posting lists and clauses\<close>

text \<open>
  Modelled from the spec: the declarations of \<open>docPointer\<close> and \<open>docPointers\<close>
  are not among the sources; the specification gives a pointer a document
  id (\<open>uint64\<close>) and an optional frequency, and a posting list its pointers
  and a checksum (a byte string).  The merge functions never compute with a
  frequency, so its 32 bits are kept as they are; a pointer built by a merge
  (\<open>docPointer{id: id}\<close>) has none.  The field \<open>id\<close> is named \<open>ptr_id\<close> here.
\<close>

record docPointer =
  ptr_id :: "64 word"
  frequency :: "32 word option"

record docPointers =
  docIDs :: "docPointer list"
  checksum :: "8 word list"

text \<open>
  The struct \<open>propValuePair\<close>.  The children are part of the value (the Go
  slice holds pointers, and every clause is reached through exactly one
  parent).  The geo range is an opaque value of type \<open>'g\<close>.  The fields
  \<open>prop\<close>, \<open>value\<close> and \<open>docIDs\<close> are named \<open>pv_prop\<close>, \<open>value_bytes\<close> and
  \<open>pv_docIDs\<close>, since Isabelle reserves the first two names and a posting
  list has a field \<open>docIDs\<close> of its own.
\<close>

datatype 'g propValuePair = PropValuePair
  (pv_prop: string)
  (operator: Operator)
  (value_bytes: "8 word list")
  (valueGeoRange: "'g option")
  (hasFrequency: bool)
  (pv_docIDs: docPointers)
  (children: "'g propValuePair list")


subsection \<open>Fetching\<close>

text \<open>
  What \<open>fetchDocIDs\<close> uses of its environment: the store's bucket lookup
  \<open>s.store.Bucket\<close> (a missing bucket is \<open>nil\<close>, here \<open>None\<close>), the
  searcher's method \<open>docPointers\<close>, and the helpers \<open>BucketFromPropNameLSM\<close>
  and \<open>PropertyNameID\<close> of the package \<open>helpers\<close>.  None of the four is
  among the sources, so they are parameters.  A bucket is an opaque value
  of type \<open>'b\<close>.
\<close>

record ('b, 'g) Searcher =
  store_Bucket :: "string \<Rightarrow> 'b option"
  docPointers_of :: "string \<Rightarrow> 'b option \<Rightarrow> int \<Rightarrow> 'g propValuePair \<Rightarrow> bool
                       \<Rightarrow> error + docPointers"
  BucketFromPropNameLSM :: "string \<Rightarrow> string"
  PropertyNameID :: string

text \<open>
  Reading a posting list is an effect on the store.  To make it observable,
  \<open>fetchDocIDs\<close> returns, next to its result, the calls of \<open>docPointers\<close> it
  made, in order: the bucket id and the limit of each call.  The mutation of
  the receiver \<open>pv\<close> is explicit: the result is the updated clause.
\<close>

type_synonym fetch_call = "string \<times> int"

fun fetchDocIDs :: "('b, 'g) Searcher \<Rightarrow> 'g propValuePair \<Rightarrow> int \<Rightarrow> bool
                      \<Rightarrow> fetch_call list \<times> (error + 'g propValuePair)"
and fetch_children :: "('b, 'g) Searcher \<Rightarrow> 'g propValuePair list \<Rightarrow> nat \<Rightarrow> bool
                      \<Rightarrow> fetch_call list \<times> (error + 'g propValuePair list)"
where
  "fetchDocIDs s (PropValuePair p oper v vg hf ids cs) lim tolerateDuplicates =
     (if OnValue oper then
        (let id0 = BucketFromPropNameLSM s p;
             (bid, p', hf') = (if p = ''id''
                 then (BucketFromPropNameLSM s (PropertyNameID s), PropertyNameID s, False)
                 else (id0, p, hf));
             b = store_Bucket s bid
         in if b = None \<and> oper \<noteq> OperatorWithinGeoRange
            then ([], Inl (Error (''bucket for prop '' @ p' @ '' not found - is it indexed?'')))
            else (case docPointers_of s bid b lim (PropValuePair p' oper v vg hf' ids cs)
                         tolerateDuplicates of
                    Inl err \<Rightarrow> ([(bid, lim)], Inl err)
                  | Inr pointers \<Rightarrow>
                      ([(bid, lim)], Inr (PropValuePair p' oper v vg hf' pointers cs))))
      else
        (case fetch_children s cs 0 tolerateDuplicates of
           (calls, Inl err) \<Rightarrow> (calls, Inl err)
         | (calls, Inr cs') \<Rightarrow> (calls, Inr (PropValuePair p oper v vg hf ids cs'))))"
| "fetch_children s [] i tolerateDuplicates = ([], Inr [])"
| "fetch_children s (child # rest) i tolerateDuplicates =
     (case fetchDocIDs s child 0 tolerateDuplicates of
        (calls, Inl err) \<Rightarrow> (calls, Inl (Wrapf err (''nested child '' @ show_nat i)))
      | (calls, Inr child') \<Rightarrow>
          (case fetch_children s rest (Suc i) tolerateDuplicates of
             (calls', Inl err) \<Rightarrow> (calls @ calls', Inl err)
           | (calls', Inr rest') \<Rightarrow> (calls @ calls', Inr (child' # rest'))))"


subsection \<open>Merging\<close>

text \<open>
  What the merge functions use and the sources do not contain:
  \<open>mergeAndOptimized\<close>, \<open>mergeOrAcceptDuplicates\<close>, \<open>docPointerChecksum\<close> and
  \<open>combineChecksums\<close>.  They are parameters.  \<open>range_order\<close> is the order in
  which the Go runtime yields the entries of the map \<open>found\<close> to a \<open>range\<close>
  loop; the language leaves it open, so it is a parameter as well, and the
  properties below assume only that it yields every entry once.
\<close>

record 'g merge_env =
  mergeAndOptimized :: "'g propValuePair list \<Rightarrow> bool \<Rightarrow> error + docPointers"
  mergeOrAcceptDuplicates :: "docPointers list \<Rightarrow> error + docPointers"
  docPointerChecksum :: "64 word list \<Rightarrow> error + 8 word list"
  combineChecksums :: "8 word list list \<Rightarrow> Operator \<Rightarrow> 8 word list"
  range_order :: "(64 word \<times> nat) list \<Rightarrow> (64 word \<times> nat) list"

definition checksumsIdentical :: "docPointers list \<Rightarrow> bool" where
  "checksumsIdentical sets =
     (if length sets = 0 then False
      else if length sets = 1 then True
      else list_all (\<lambda>set'. checksum set' = checksum (sets ! 0)) sets)"

text \<open>
  The map \<open>found\<close> of type \<open>map[uint64]uint64\<close> is an association list with
  one entry per key.  \<open>found_incr\<close> is the three statements
  \<open>count := found[id]; count++; found[id] = count\<close>.  A count is a \<open>nat\<close>: it
  is bounded by the number of pointers held in memory, which is far below
  \<open>2^64\<close>, so the \<open>uint64\<close> never wraps; for the same reason
  \<open>uint64(len(sets))\<close> is \<open>length sets\<close>.
\<close>

fun found_incr :: "(64 word \<times> nat) list \<Rightarrow> 64 word \<Rightarrow> (64 word \<times> nat) list" where
  "found_incr [] i = [(i, 1)]"
| "found_incr ((k, c) # m) i =
     (if k = i then (k, c + 1) # m else (k, c) # found_incr m i)"

definition count_found :: "docPointers list \<Rightarrow> (64 word \<times> nat) list" where
  "count_found sets =
     foldl (\<lambda>found set'. foldl (\<lambda>found' pointer. found_incr found' (ptr_id pointer))
                                 found (docIDs set'))
           [] sets"

definition new_pointer :: "64 word \<Rightarrow> docPointer" where
  "new_pointer i = \<lparr>ptr_id = i, frequency = None\<rparr>"

text \<open>The part of \<open>mergeAnd\<close> after the children's lists have been retrieved.\<close>

definition mergeAnd_sets :: "'g merge_env \<Rightarrow> docPointers list \<Rightarrow> error + docPointers" where
  "mergeAnd_sets env sets =
     (if checksumsIdentical sets then Inr (sets ! 0)
      else
        (let found = count_found sets;
             idsForChecksum =
               map fst (filter (\<lambda>(i, count). count = length sets) (range_order env found))
         in case docPointerChecksum env idsForChecksum of
              Inl err \<Rightarrow> Inl (Wrapf err ''calculate checksum'')
            | Inr cs \<Rightarrow> Inr \<lparr>docIDs = map new_pointer idsForChecksum, checksum = cs\<rparr>))"

text \<open>The part of \<open>mergeOr\<close> after the children's lists have been retrieved.\<close>

definition mergeOr_sets :: "'g merge_env \<Rightarrow> docPointers list \<Rightarrow> bool \<Rightarrow> error + docPointers" where
  "mergeOr_sets env sets acceptDuplicates =
     (if checksumsIdentical sets then Inr (sets ! 0)
      else if acceptDuplicates then mergeOrAcceptDuplicates env sets
      else
        (let checksums = map checksum sets;
             found = count_found sets
         in Inr \<lparr>docIDs = map new_pointer (map fst (range_order env found)),
                 checksum = combineChecksums env checksums OperatorOr\<rparr>))"


text \<open>
  \<open>mergeDocIDs\<close>, \<open>mergeOr\<close> and the loop that retrieves the children's lists
  call each other.  \<open>retrieve\<close> is that loop, which \<open>mergeAnd\<close> and \<open>mergeOr\<close>
  both start with; its third argument is the index \<open>i\<close>.
\<close>

fun mergeDocIDs :: "'g merge_env \<Rightarrow> 'g propValuePair \<Rightarrow> bool \<Rightarrow> error + docPointers"
and mergeOr :: "'g merge_env \<Rightarrow> 'g propValuePair list \<Rightarrow> bool \<Rightarrow> error + docPointers"
and retrieve :: "'g merge_env \<Rightarrow> 'g propValuePair list \<Rightarrow> nat \<Rightarrow> bool
                   \<Rightarrow> error + docPointers list"
where
  "mergeDocIDs env (PropValuePair p oper v vg hf ids cs) acceptDuplicates =
     (if OnValue oper then Inr ids
      else (case oper of
              OperatorAnd \<Rightarrow> mergeAndOptimized env cs acceptDuplicates
            | OperatorOr \<Rightarrow> mergeOr env cs acceptDuplicates
            | _ \<Rightarrow> Inl (Error (''unsupported operator: '' @ Name oper))))"
| "mergeOr env cs acceptDuplicates =
     (case retrieve env cs 0 acceptDuplicates of
        Inl err \<Rightarrow> Inl err
      | Inr sets \<Rightarrow> mergeOr_sets env sets acceptDuplicates)"
| "retrieve env [] i acceptDuplicates = Inr []"
| "retrieve env (child # rest) i acceptDuplicates =
     (case mergeDocIDs env child acceptDuplicates of
        Inl err \<Rightarrow> Inl (Wrapf err (''retrieve doc ids of child '' @ show_nat i))
      | Inr docIDs' \<Rightarrow>
          (case retrieve env rest (Suc i) acceptDuplicates of
             Inl err \<Rightarrow> Inl err
           | Inr sets \<Rightarrow> Inr (docIDs' # sets)))"

definition mergeAnd :: "'g merge_env \<Rightarrow> 'g propValuePair list \<Rightarrow> bool \<Rightarrow> error + docPointers" where
  "mergeAnd env cs acceptDuplicates =
     (case retrieve env cs 0 acceptDuplicates of
        Inl err \<Rightarrow> Inl err
      | Inr sets \<Rightarrow> mergeAnd_sets env sets)"

text \<open>
  The document ids of a posting list, and the number of pointers with
  document id \<open>i\<close> in all of the lists, repeated pointers counted as often as
  they occur.
\<close>

definition ids_of :: "docPointers \<Rightarrow> 64 word list" where
  "ids_of set' = map ptr_id (docIDs set')"

definition occurrences :: "docPointers list \<Rightarrow> 64 word \<Rightarrow> nat" where
  "occurrences sets i = sum_list (map (\<lambda>set'. count_list (ids_of set') i) sets)"


section \<open>Validation of filters against the schema\<close>

text \<open>
  Modelled from the spec: \<open>ValidateFilters\<close>, the schema package (\<open>DataType\<close>,
  \<open>IsArrayType\<close>) and the filter tree (\<open>LocalFilter\<close>, \<open>Clause\<close>, \<open>Path\<close>,
  \<open>Value\<close>) are not among the sources; only the test
  \<open>Test_Explorer_GetClass_WithFilters\<close> and its schema are.  The data types
  are the constants that test uses.  A declared data type of a property is
  a primitive type, an array variant or the name of a referenced class; the
  list of declared types of a property is never empty, so it is given by
  its first element and the rest.
\<close>

datatype DataType =
    DataTypeCRef
  | DataTypeString
  | DataTypeText
  | DataTypeInt
  | DataTypeNumber
  | DataTypeBoolean
  | DataTypeDate
  | DataTypeGeoCoordinates
  | DataTypePhoneNumber
  | DataTypeBlob
  | DataTypeStringArray
  | DataTypeTextArray
  | DataTypeIntArray
  | DataTypeNumberArray
  | DataTypeBooleanArray
  | DataTypeDateArray

fun IsArrayType :: "DataType \<Rightarrow> DataType option" where
  "IsArrayType DataTypeStringArray = Some DataTypeString"
| "IsArrayType DataTypeTextArray = Some DataTypeText"
| "IsArrayType DataTypeIntArray = Some DataTypeInt"
| "IsArrayType DataTypeNumberArray = Some DataTypeNumber"
| "IsArrayType DataTypeBooleanArray = Some DataTypeBoolean"
| "IsArrayType DataTypeDateArray = Some DataTypeDate"
| "IsArrayType _ = None"

datatype DeclaredType = Primitive DataType | ReferenceTo string

record Property =
  prop_Name :: string
  prop_DataType :: DeclaredType
  prop_MoreDataTypes :: "DeclaredType list"

record Class =
  class_Name :: string
  class_Properties :: "Property list"

type_synonym Schema = "Class list"

text \<open>
  A clause is a leaf with an operator, a path and a value tagged with a
  data type (the payload of the value plays no part in validation), or an
  internal node with an operator and its operands.  A path is the list of
  its segments \<open>[propName, className, propName, ...]\<close>.
\<close>

datatype Clause =
    Leaf Operator "string list" DataType
  | Node Operator "Clause list"

text \<open>
  The failures of validation, each with the identifiers its message names:
  the class that does not exist; the property and the class it was looked
  up in; the offending value tag, the declared type of the property and the
  tag to use instead; the reference property and its target class; the
  special path \<open>["id"]\<close> used without a string value; the position of the
  failing operand of an internal node and its failure; a path whose number of
  segments is not odd.
\<close>

datatype validation_error =
    ClassDoesNotExist string
  | NoSuchProp string string
  | CannotUse DataType DataType DataType
  | RefPropNeedsValueInt string string
  | IdNeedsValueString
  | ChildOperand nat validation_error
  | MalformedPath

fun find_class :: "Schema \<Rightarrow> string \<Rightarrow> Class option" where
  "find_class [] c = None"
| "find_class (cl # rest) c = (if class_Name cl = c then Some cl else find_class rest c)"

fun find_prop :: "Property list \<Rightarrow> string \<Rightarrow> Property option" where
  "find_prop [] p = None"
| "find_prop (pr # rest) p = (if prop_Name pr = p then Some pr else find_prop rest p)"

text \<open>
  Modelled from the spec: the resolution of a path is not among the sources.
  Resolving a path against a class: a path of one segment names a property
  of the class; a longer path names a property, the class the traversal
  lands on, which must exist in the schema, and the rest of the path,
  resolved against that class.
\<close>

fun resolve_path :: "Schema \<Rightarrow> string \<Rightarrow> string list \<Rightarrow> validation_error + Property" where
  "resolve_path sch c [] = Inl MalformedPath"
| "resolve_path sch c [p] =
     (case find_class sch c of
        None \<Rightarrow> Inl (ClassDoesNotExist c)
      | Some cl \<Rightarrow> (case find_prop (class_Properties cl) p of
                     None \<Rightarrow> Inl (NoSuchProp p c)
                   | Some pr \<Rightarrow> Inr pr))"
| "resolve_path sch c [p, c'] = Inl MalformedPath"
| "resolve_path sch c (p # c' # rest) =
     (case find_class sch c' of
        None \<Rightarrow> Inl (ClassDoesNotExist c')
      | Some cl \<Rightarrow> resolve_path sch c' rest)"

text \<open>
  Modelled from the spec: the check of the value tag against the declared
  type of the resolved property is not among the sources.  An array type
  requires the tag of its scalar base type, any other primitive type its
  own tag, and a reference property the tag \<open>int\<close> (the count of
  references).
\<close>

definition check_tag :: "Property \<Rightarrow> DataType \<Rightarrow> validation_error option" where
  "check_tag pr tag =
     (case prop_DataType pr of
        ReferenceTo target \<Rightarrow>
          (if tag = DataTypeInt then None
           else Some (RefPropNeedsValueInt (prop_Name pr) target))
      | Primitive dt \<Rightarrow>
          (let useInstead = (case IsArrayType dt of Some baseType \<Rightarrow> baseType | None \<Rightarrow> dt)
           in if tag = useInstead then None else Some (CannotUse tag dt useInstead)))"

text \<open>
  Modelled from the spec: \<open>ValidateFilters\<close> is not among the sources.  It
  recurses the tree.  For an internal node it validates every operand and
  reports the first failure with the 0-based position of the operand.  For
  a leaf, the path \<open>["id"]\<close> bypasses the schema and accepts only a string
  value; any other path is resolved against the class, and the tag of the
  value is checked against the property it resolves to.
\<close>

fun ValidateFilters :: "Schema \<Rightarrow> string \<Rightarrow> Clause \<Rightarrow> validation_error option"
and validate_operands :: "Schema \<Rightarrow> string \<Rightarrow> Clause list \<Rightarrow> nat \<Rightarrow> validation_error option"
where
  "ValidateFilters sch c (Leaf oper path tag) =
     (if path = [''id''] then
        (if tag = DataTypeString then None else Some IdNeedsValueString)
      else (case resolve_path sch c path of
              Inl err \<Rightarrow> Some err
            | Inr pr \<Rightarrow> check_tag pr tag))"
| "ValidateFilters sch c (Node oper operands) = validate_operands sch c operands 0"
| "validate_operands sch c [] i = None"
| "validate_operands sch c (child # rest) i =
     (case ValidateFilters sch c child of
        Some err \<Rightarrow> Some (ChildOperand i err)
      | None \<Rightarrow> validate_operands sch c rest (Suc i))"


section \<open>The bucket of the storage layer and its write-ahead log\<close>

text \<open>
  Modelled from the spec: the bucket (\<open>NewBucket\<close>, \<open>Put\<close>, \<open>Delete\<close>, \<open>Get\<close>)
  and its write-ahead log are not among the sources; only the tests
  \<open>TestReplaceStrategy_RecoverFromWAL\<close> and
  \<open>TestReplaceStrategy_RecoverFromWALWithCorruptLastElement\<close> are.  A bucket
  of the replace strategy has a memory table, which holds the last value
  written for a key, and a log.  A write is first appended to the log and
  then applied to the memory table.  On start-up the records of an existing
  log are replayed in order into a fresh memory table; a last record that
  is cut short is discarded, and recovery goes on with everything before
  it.

  The specification leaves the layout of a record open.  The model frames
  a record as a tag byte (0 for \<open>Put\<close>, 1 for \<open>Delete\<close>) followed by the key
  and, for \<open>Put\<close>, the value, each preceded by its length as eight bytes,
  lowest byte first.
\<close>

datatype wal_op = Put "8 word list" "8 word list" | Delete "8 word list"

type_synonym memtable = "8 word list \<rightharpoonup> 8 word list"

record bucket =
  memtable_of :: memtable
  wal :: "8 word list"

fun enc_len :: "nat \<Rightarrow> nat \<Rightarrow> 8 word list" where
  "enc_len 0 n = []"
| "enc_len (Suc w) n = of_nat (n mod 256) # enc_len w (n div 256)"

fun dec_len :: "8 word list \<Rightarrow> nat" where
  "dec_len [] = 0"
| "dec_len (b # bs) = unat b + 256 * dec_len bs"

definition enc_field :: "8 word list \<Rightarrow> 8 word list" where
  "enc_field xs = enc_len 8 (length xs) @ xs"

definition encode_op :: "wal_op \<Rightarrow> 8 word list" where
  "encode_op o' = (case o' of
       Put k v \<Rightarrow> 0 # enc_field k @ enc_field v
     | Delete k \<Rightarrow> 1 # enc_field k)"

definition apply_op :: "memtable \<Rightarrow> wal_op \<Rightarrow> memtable" where
  "apply_op m o' = (case o' of Put k v \<Rightarrow> m(k \<mapsto> v) | Delete k \<Rightarrow> m(k := None))"

definition bucket_write :: "bucket \<Rightarrow> wal_op \<Rightarrow> bucket" where
  "bucket_write b o' = \<lparr>memtable_of = apply_op (memtable_of b) o', wal = wal b @ encode_op o'\<rparr>"

definition empty_bucket :: bucket where
  "empty_bucket = \<lparr>memtable_of = Map.empty, wal = []\<rparr>"

definition Get :: "bucket \<Rightarrow> 8 word list \<Rightarrow> 8 word list option" where
  "Get b k = memtable_of b k"

text \<open>
  Modelled from the spec: the reader of the log is not among the sources.
  \<open>read_field\<close> reads a length and that many bytes; it fails when the log
  ends before.  \<open>parse_record\<close> reads one record: the
  log ends cleanly, or holds a whole record and the rest, or ends within a
  record, or holds a tag that is no record's.
\<close>

definition read_field :: "8 word list \<Rightarrow> (8 word list \<times> 8 word list) option" where
  "read_field bs =
     (if length bs < 8 then None
      else (let n = dec_len (take 8 bs); r = drop 8 bs
            in if length r < n then None else Some (take n r, drop n r)))"

datatype parsed = EndOfLog | Record wal_op "8 word list" | CutShort | BadTag

definition parse_record :: "8 word list \<Rightarrow> parsed" where
  "parse_record bs =
     (case bs of
        [] \<Rightarrow> EndOfLog
      | tag # r \<Rightarrow>
          (if tag = 0 then
             (case read_field r of
                None \<Rightarrow> CutShort
              | Some (k, r') \<Rightarrow>
                  (case read_field r' of
                     None \<Rightarrow> CutShort
                   | Some (v, r'') \<Rightarrow> Record (Put k v) r''))
           else if tag = 1 then
             (case read_field r of
                None \<Rightarrow> CutShort
              | Some (k, r') \<Rightarrow> Record (Delete k) r')
           else BadTag))"

text \<open>
  Modelled from the spec: the recovery of a bucket is not among the sources.
  In the replay every whole record is applied to the memory table; a
  record that is cut short ends the replay without an error; a bad tag is
  a fault of the storage.  Every whole record leaves a shorter log, so the
  replay ends.
\<close>

function replay :: "memtable \<Rightarrow> 8 word list \<Rightarrow> error + memtable" where
  "replay m bs =
     (case parse_record bs of
        EndOfLog \<Rightarrow> Inr m
      | Record o' r \<Rightarrow> replay (apply_op m o') r
      | CutShort \<Rightarrow> Inr m
      | BadTag \<Rightarrow> Inl (Error ''corrupt write-ahead log''))"
  by pat_completeness auto
termination
  by (relation "measure (\<lambda>(m, bs). length bs)")
     (auto simp: parse_record_def read_field_def Let_def
           split: list.splits if_splits option.splits prod.splits)

definition NewBucket :: "8 word list \<Rightarrow> error + bucket" where
  "NewBucket log = (case replay Map.empty log of
       Inl err \<Rightarrow> Inl err
     | Inr m \<Rightarrow> Inr \<lparr>memtable_of = m, wal = log\<rparr>)"

declare replay.simps [simp del]

section \<open>Auxiliary notions for the statements\<close>

text \<open>
  The count that the map \<open>found\<close> holds for a document id (0 for an id that
  is no key), and the two facts that hold of \<open>found\<close> throughout the counting
  loop: a key occurs once, and a count is positive.
\<close>

definition cnt :: "(64 word \<times> nat) list \<Rightarrow> 64 word \<Rightarrow> nat" where
  "cnt m i = (case map_of m i of None \<Rightarrow> 0 | Some c \<Rightarrow> c)"

definition found_ok :: "(64 word \<times> nat) list \<Rightarrow> bool" where
  "found_ok m \<longleftrightarrow> distinct (map fst m) \<and> (\<forall>e\<in>set m. 0 < snd e)"

text \<open>
  The receiver of \<open>fetchDocIDs\<close> after the special case of the property
  \<open>id\<close>, which renames the property and switches the frequency off, and the
  bucket id the fetch looks up.
\<close>

definition fetch_receiver :: "('b, 'g) Searcher \<Rightarrow> 'g propValuePair \<Rightarrow> 'g propValuePair" where
  "fetch_receiver s pv =
     (if pv_prop pv = ''id''
      then PropValuePair (PropertyNameID s) (operator pv) (value_bytes pv) (valueGeoRange pv)
             False (pv_docIDs pv) (children pv)
      else pv)"

definition fetch_bucket :: "('b, 'g) Searcher \<Rightarrow> 'g propValuePair \<Rightarrow> string" where
  "fetch_bucket s pv = BucketFromPropNameLSM s (pv_prop (fetch_receiver s pv))"

text \<open>
  A key or a value has fewer than \<open>2^64\<close> bytes, so its length fits the eight
  bytes of the length field.
\<close>

definition op_ok :: "wal_op \<Rightarrow> bool" where
  "op_ok o' = (case o' of Put k v \<Rightarrow> length k < 2 ^ 64 \<and> length v < 2 ^ 64
                        | Delete k \<Rightarrow> length k < 2 ^ 64)"

section \<open>Concrete values\<close>

text \<open>
  Values at which the statements below are instantiated.  \<open>example_env\<close> and
  \<open>example_searcher\<close> choose the parameters: the two absent merge functions
  fail, a checksum is the low byte of every id, checksums are combined by
  concatenation, the map \<open>found\<close> is ranged over from its last entry to its
  first; the store has one bucket, every read of a posting list returns
  the same list, a bucket is named \<open>property_\<close> and the property's name, and
  the internal name of the property \<open>id\<close> is \<open>_id\<close>.
\<close>

definition example_env :: "unit merge_env" where
  "example_env =
     \<lparr>mergeAndOptimized = (\<lambda>cs acceptDuplicates. Inl (Error ''not modelled'')),
      mergeOrAcceptDuplicates = (\<lambda>sets. Inl (Error ''not modelled'')),
      docPointerChecksum = (\<lambda>ids. Inr (map ucast ids)),
      combineChecksums = (\<lambda>checksums oper. concat checksums),
      range_order = (\<lambda>found. rev found)\<rparr>"

definition posting :: "64 word list \<Rightarrow> 8 word list \<Rightarrow> docPointers" where
  "posting ids cs = \<lparr>docIDs = map new_pointer ids, checksum = cs\<rparr>"

definition leaf :: "string \<Rightarrow> Operator \<Rightarrow> docPointers \<Rightarrow> unit propValuePair" where
  "leaf p oper ids = PropValuePair p oper [] None True ids []"


definition example_searcher :: "(unit, unit) Searcher" where
  "example_searcher =
     \<lparr>store_Bucket = (\<lambda>bid. if bid = ''property_stringProp'' then Some () else None),
      docPointers_of = (\<lambda>bid b lim pv tolerateDuplicates. Inr (posting [1, 2] [3])),
      BucketFromPropNameLSM = (\<lambda>p. ''property_'' @ p),
      PropertyNameID = ''_id''\<rparr>"

text \<open>The schema of \<open>schemaForFiltersValidation\<close> in the test of the explorer.\<close>

definition schemaForFiltersValidation :: Schema where
  "schemaForFiltersValidation =
     [\<lparr>class_Name = ''ClassOne'', class_Properties =
        [\<lparr>prop_Name = ''string_prop'', prop_DataType = Primitive DataTypeString, prop_MoreDataTypes = []\<rparr>,
         \<lparr>prop_Name = ''text_prop'', prop_DataType = Primitive DataTypeText, prop_MoreDataTypes = []\<rparr>,
         \<lparr>prop_Name = ''string_array_prop'', prop_DataType = Primitive DataTypeStringArray, prop_MoreDataTypes = []\<rparr>,
         \<lparr>prop_Name = ''text_array_prop'', prop_DataType = Primitive DataTypeTextArray, prop_MoreDataTypes = []\<rparr>,
         \<lparr>prop_Name = ''number_prop'', prop_DataType = Primitive DataTypeNumber, prop_MoreDataTypes = []\<rparr>,
         \<lparr>prop_Name = ''int_prop'', prop_DataType = Primitive DataTypeInt, prop_MoreDataTypes = []\<rparr>,
         \<lparr>prop_Name = ''number_array_prop'', prop_DataType = Primitive DataTypeNumberArray, prop_MoreDataTypes = []\<rparr>,
         \<lparr>prop_Name = ''int_array_prop'', prop_DataType = Primitive DataTypeIntArray, prop_MoreDataTypes = []\<rparr>,
         \<lparr>prop_Name = ''boolean_prop'', prop_DataType = Primitive DataTypeBoolean, prop_MoreDataTypes = []\<rparr>,
         \<lparr>prop_Name = ''boolean_array_prop'', prop_DataType = Primitive DataTypeBooleanArray, prop_MoreDataTypes = []\<rparr>,
         \<lparr>prop_Name = ''date_prop'', prop_DataType = Primitive DataTypeDate, prop_MoreDataTypes = []\<rparr>,
         \<lparr>prop_Name = ''date_array_prop'', prop_DataType = Primitive DataTypeDateArray, prop_MoreDataTypes = []\<rparr>,
         \<lparr>prop_Name = ''blob_prop'', prop_DataType = Primitive DataTypeBlob, prop_MoreDataTypes = []\<rparr>,
         \<lparr>prop_Name = ''geo_prop'', prop_DataType = Primitive DataTypeGeoCoordinates, prop_MoreDataTypes = []\<rparr>,
         \<lparr>prop_Name = ''phone_prop'', prop_DataType = Primitive DataTypePhoneNumber, prop_MoreDataTypes = []\<rparr>,
         \<lparr>prop_Name = ''ref_prop'', prop_DataType = ReferenceTo ''ClassTwo'', prop_MoreDataTypes = []\<rparr>]\<rparr>,
      \<lparr>class_Name = ''ClassTwo'', class_Properties =
        [\<lparr>prop_Name = ''string_prop'', prop_DataType = Primitive DataTypeString, prop_MoreDataTypes = []\<rparr>]\<rparr>]"

text \<open>
  The writes of the tests of recovery: three keys are set, the second is
  deleted and the third is updated.
\<close>

definition test_ops :: "wal_op list" where
  "test_ops = [Put [1] [10, 11], Put [2] [20, 21], Put [3] [30, 31],
               Delete [2], Put [3] [32, 33, 34]]"

section \<open>Properties of the grouper\<close>

subsection \<open>The insertion loop\<close>

lemma insert_scan_added:
  "snd (insert_scan xs e) \<longleftrightarrow> (\<exists>x\<in>set xs. Count x \<le> Count e)"
  by (induction xs) (auto split: prod.splits)

lemma insert_scan_not_added:
  "\<not> snd (insert_scan xs e) \<Longrightarrow> fst (insert_scan xs e) = xs"
  by (induction xs) (auto split: prod.splits if_splits)

lemma insert_scan_counts:
  "snd (insert_scan xs e) \<Longrightarrow>
   map Count (fst (insert_scan xs e)) = insort_key uminus (Count e) (map Count xs)"
  by (induction xs) (auto split: prod.splits if_splits)

lemma insort_no_stop:
  "\<forall>x\<in>set cs. (c::int) < x \<Longrightarrow> insort_key uminus c cs = cs @ [c]"
  by (induction cs) auto

lemma length_insert_scan:
  "length (fst (insert_scan xs e)) = (if snd (insert_scan xs e) then Suc (length xs) else length xs)"
  by (induction xs) (auto split: prod.splits if_splits)

text \<open>
  For a limit of at least 1 and a ranked list within the limit, the counts
  of the new ranked list are the first \<open>limit\<close> counts of the old ones with
  the count of the element inserted before the first count that is not
  greater.
\<close>

lemma insertOrdered_counts:
  assumes "1 \<le> limit g" "int (length (topGroups g)) \<le> limit g"
  shows "map Count (topGroups (insertOrdered g e)) =
         take (nat (limit g)) (insort_key uminus (Count e) (map Count (topGroups g)))"
proof (cases "topGroups g = []")
  case True
  with assms show ?thesis by (simp add: insertOrdered_def)
next
  case False
  obtain r a where ra: "insert_scan (topGroups g) e = (r, a)" by (cases "insert_scan (topGroups g) e")
  show ?thesis
  proof (cases a)
    case True
    have c: "map Count r = insort_key uminus (Count e) (map Count (topGroups g))"
      using insert_scan_counts[of "topGroups g" e] ra True by simp
    have l: "length r = Suc (length (topGroups g))"
      using length_insert_scan[of "topGroups g" e] ra True by simp
    have lc: "length (insort_key uminus (Count e) (map Count (topGroups g))) = Suc (length (topGroups g))"
      by simp
    show ?thesis
    proof (cases "int (length r) > limit g")
      case T2: True
      with l assms have eq: "nat (limit g) = length (topGroups g)" by linarith
      have "topGroups (insertOrdered g e) = take (length r - 1) r"
        using False ra True T2 by (simp add: insertOrdered_def)
      then show ?thesis using c l eq by (simp add: take_map[symmetric] del: take_map)
    next
      case F2: False
      have "topGroups (insertOrdered g e) = r"
        using False ra True F2 by (simp add: insertOrdered_def)
      moreover have "nat (limit g) \<ge> length r" using F2 by linarith
      ultimately show ?thesis using c lc l by (metis take_all)
    qed
  next
    case F: False
    have r: "r = topGroups g" using insert_scan_not_added[of "topGroups g" e] ra F by simp
    have "\<forall>x\<in>set (topGroups g). Count e < Count x"
      using insert_scan_added[of "topGroups g" e] ra F by auto
    then have c: "insort_key uminus (Count e) (map Count (topGroups g)) = map Count (topGroups g) @ [Count e]"
      by (intro insort_no_stop) auto
    show ?thesis
    proof (cases "int (length (topGroups g)) < limit g")
      case True
      then have "topGroups (insertOrdered g e) = topGroups g @ [e]"
        using False ra F r assms by (simp add: insertOrdered_def)
      moreover have "nat (limit g) \<ge> length (topGroups g @ [e])" using True by simp
      ultimately show ?thesis using c by simp
    next
      case F3: False
      then have "topGroups (insertOrdered g e) = topGroups g"
        using False ra F r assms by (simp add: insertOrdered_def)
      moreover have "nat (limit g) = length (topGroups g)" using F3 assms by linarith
      ultimately show ?thesis using c by simp
    qed
  qed
qed

lemma take_insort_take:
  "take n (insort_key f c (take n ys)) = take n (insort_key f c ys)"
proof (induction ys arbitrary: n)
  case Nil
  then show ?case by simp
next
  case (Cons y ys)
  show ?case
  proof (cases n)
    case 0
    then show ?thesis by simp
  next
    case (Suc m)
    then show ?thesis using Cons[of m] by (cases m) auto
  qed
qed


lemma insertOrdered_limit [simp]: "limit (insertOrdered g e) = limit g"
  by (simp add: insertOrdered_def Let_def split: prod.splits)

lemma insertOrdered_values [simp]: "values_of (insertOrdered g e) = values_of g"
  by (simp add: insertOrdered_def Let_def split: prod.splits)

lemma insertOrdered_length:
  assumes "1 \<le> limit g" "int (length (topGroups g)) \<le> limit g"
  shows "int (length (topGroups (insertOrdered g e))) \<le> limit g"
proof -
  have "length (map Count (topGroups (insertOrdered g e))) \<le> nat (limit g)"
    unfolding insertOrdered_counts[OF assms] by simp
  then show ?thesis using assms by simp
qed

lemma sorted_desc_insort:
  "sorted_wrt (\<lambda>a b. a \<ge> b) cs \<Longrightarrow> sorted_wrt (\<lambda>a b. a \<ge> b) (insort_key uminus (c::int) cs)"
  by (induction cs) (auto simp: set_insort_key)

lemma sorted_desc_take:
  "sorted_wrt (\<lambda>a b. a \<ge> b) cs \<Longrightarrow> sorted_wrt (\<lambda>a b. a \<ge> b) (take n (cs::int list))"
  by (metis append_take_drop_id sorted_wrt_append)

lemma insertOrdered_inv:
  assumes "1 \<le> limit g" "grouper_inv g"
  shows "grouper_inv (insertOrdered g e)"
  using assms insertOrdered_length[of g e] insertOrdered_counts[of g e]
  by (simp add: grouper_inv_def sorted_desc_insort sorted_desc_take)

lemma foldl_insertOrdered_limit [simp]:
  "limit (foldl insertOrdered g es) = limit g"
  by (induction es arbitrary: g) auto

lemma foldl_insertOrdered_inv:
  "1 \<le> limit g \<Longrightarrow> grouper_inv g \<Longrightarrow> grouper_inv (foldl insertOrdered g es)"
  by (induction es arbitrary: g) (auto simp: insertOrdered_inv)

lemma foldl_insertOrdered_counts:
  "1 \<le> limit g \<Longrightarrow> int (length (topGroups g)) \<le> limit g \<Longrightarrow>
   map Count (topGroups g) = take (nat (limit g)) cs \<Longrightarrow>
   map Count (topGroups (foldl insertOrdered g es)) =
   take (nat (limit g)) (foldl (\<lambda>cs e. insort_key uminus (Count e) cs) cs es)"
proof (induction es arbitrary: g cs)
  case Nil
  then show ?case by simp
next
  case (Cons e es)
  have "map Count (topGroups (insertOrdered g e)) =
        take (nat (limit g)) (insort_key uminus (Count e) (take (nat (limit g)) cs))"
    using insertOrdered_counts[of g e] Cons.prems by simp
  then have "map Count (topGroups (insertOrdered g e)) =
        take (nat (limit (insertOrdered g e))) (insort_key uminus (Count e) cs)"
    by (simp add: take_insort_take)
  moreover have "int (length (topGroups (insertOrdered g e))) \<le> limit (insertOrdered g e)"
    using insertOrdered_length[of g e] Cons.prems by simp
  ultimately show ?case using Cons.IH[of "insertOrdered g e" "insort_key uminus (Count e) cs"] Cons.prems
    by simp
qed

lemma foldl_insort_sort_key:
  "foldl (\<lambda>cs e. insort_key f (h e) cs) [] es = sort_key f (rev (map h es))"
  by (simp add: sort_key_def foldl_conv_foldr foldr_map comp_def rev_map)

lemma sort_key_uminus_rev_sort:
  "sort_key uminus (xs::int list) = rev (sort xs)"
proof -
  have "sorted (rev (sort_key uminus xs))"
    using sorted_sort_key[of uminus xs]
    by (simp add: sorted_wrt_rev sorted_map sorted_wrt_iff_nth_less rev_nth)
  moreover have "mset (rev (sort_key uminus xs)) = mset xs" by simp
  ultimately have "sort xs = rev (sort_key uminus xs)"
    by (metis properties_for_sort)
  then show ?thesis by simp
qed

lemma sort_rev_list: "sort (rev (xs::int list)) = sort xs"
  by (rule properties_for_sort) simp_all

lemma foldl_mk_group:
  "foldl (\<lambda>g' e. insertOrdered g' (mk_group e)) g es = foldl insertOrdered g (map mk_group es)"
  by (induction es arbitrary: g) auto

text \<open>
  For a limit of at least 1 the selection returns, for every iteration order
  of the tally, the \<open>limit\<close> greatest counts in descending order.
\<close>

lemma aggregateAndSelect_counts:
  assumes "1 \<le> limit g" "topGroups g = []"
  shows "map Count (aggregateAndSelect g) =
         take (nat (limit g)) (rev (sort (map (\<lambda>e. int (length (snd e))) (values_of g))))"
proof -
  have "map Count (aggregateAndSelect g) =
        take (nat (limit g)) (foldl (\<lambda>cs e. insort_key uminus (Count e) cs) [] (map mk_group (values_of g)))"
    unfolding aggregateAndSelect_def foldl_mk_group
    using assms by (intro foldl_insertOrdered_counts) auto
  also have "\<dots> = take (nat (limit g)) (sort_key uminus (rev (map Count (map mk_group (values_of g)))))"
    by (simp only: foldl_insort_sort_key)
  also have "map Count (map mk_group (values_of g)) = map (\<lambda>e. int (length (snd e))) (values_of g)"
    by (simp add: mk_group_def comp_def)
  finally show ?thesis by (simp add: sort_key_uminus_rev_sort sort_rev_list)
qed


lemma insert_scan_split:
  "\<forall>x\<in>set pre. Count x > Count elem \<Longrightarrow> Count e \<le> Count elem \<Longrightarrow>
   insert_scan (pre @ e # post) elem = (pre @ elem # e # post, True)"
  by (induction pre) auto

subsection \<open>Claims about the grouper\<close>

text \<open>
  Claim C8, as amended.  The scan of \<open>insertOrdered\<close> skips the entries whose
  count is strictly greater than the candidate's and stops at the first
  entry whose count is less than or equal to it; the candidate is placed
  directly before that entry, hence before the existing entries of equal
  count, and the last element is then dropped when the new length exceeds
  the limit.
\<close>

theorem insertOrdered_ties_before:
  assumes "topGroups g = pre @ e # post"
    and "\<forall>x\<in>set pre. Count x > Count elem"
    and "Count e \<le> Count elem"
  shows "topGroups (insertOrdered g elem) =
         (if int (length (topGroups g)) + 1 > limit g
          then take (length (topGroups g)) (pre @ elem # e # post)
          else pre @ elem # e # post)"
  using assms insert_scan_split[of pre elem e post]
  by (simp add: insertOrdered_def)

theorem insertOrdered_ties_before_witness:
  "topGroups (insertOrdered
      \<lparr>values_of = [], topGroups =
         [\<lparr>Value = ''a'', Count = 5, docIDs = [1, 2, 3, 4, 5]\<rparr>,
          \<lparr>Value = ''b'', Count = 3, docIDs = [6, 7, 8]\<rparr>,
          \<lparr>Value = ''c'', Count = 1, docIDs = [9]\<rparr>], limit = 10\<rparr>
      \<lparr>Value = ''d'', Count = 3, docIDs = [10, 11, 12]\<rparr>) =
     [\<lparr>Value = ''a'', Count = 5, docIDs = [1, 2, 3, 4, 5]\<rparr>,
      \<lparr>Value = ''d'', Count = 3, docIDs = [10, 11, 12]\<rparr>,
      \<lparr>Value = ''b'', Count = 3, docIDs = [6, 7, 8]\<rparr>,
      \<lparr>Value = ''c'', Count = 1, docIDs = [9]\<rparr>]"
  using insertOrdered_ties_before[of
      "\<lparr>values_of = [], topGroups =
         [\<lparr>Value = ''a'', Count = 5, docIDs = [1, 2, 3, 4, 5]\<rparr>,
          \<lparr>Value = ''b'', Count = 3, docIDs = [6, 7, 8]\<rparr>,
          \<lparr>Value = ''c'', Count = 1, docIDs = [9]\<rparr>], limit = 10\<rparr>"
      "[\<lparr>Value = ''a'', Count = 5, docIDs = [1, 2, 3, 4, 5]\<rparr>]"
      "\<lparr>Value = ''b'', Count = 3, docIDs = [6, 7, 8]\<rparr>"
      "[\<lparr>Value = ''c'', Count = 1, docIDs = [9]\<rparr>]"
      "\<lparr>Value = ''d'', Count = 3, docIDs = [10, 11, 12]\<rparr>"]
  by simp

text \<open>
  Claim C8 as stated fails: the ranked list holds \<open>x\<close> with count 3, the
  candidate \<open>y\<close> has count 3 as well, and \<open>y\<close> is placed before \<open>x\<close>, not
  after it.
\<close>

theorem insertOrdered_ties_counterexample:
  "topGroups (insertOrdered
      \<lparr>values_of = [], topGroups = [\<lparr>Value = ''x'', Count = 3, docIDs = [1, 2, 3]\<rparr>], limit = 5\<rparr>
      \<lparr>Value = ''y'', Count = 3, docIDs = [4, 5, 6]\<rparr>) =
     [\<lparr>Value = ''y'', Count = 3, docIDs = [4, 5, 6]\<rparr>,
      \<lparr>Value = ''x'', Count = 3, docIDs = [1, 2, 3]\<rparr>]"
  by (simp add: insertOrdered_def)

text \<open>
  Claim C10.  For every limit of at least 1, \<open>insertOrdered\<close> leaves the limit
  as it is and preserves the invariant that \<open>topGroups\<close> is sorted in
  non-increasing order of count and has at most \<open>limit\<close> elements; from the
  empty list, every sequence of insertions ends in a list with both
  properties.
\<close>

theorem insertOrdered_invariant:
  assumes "1 \<le> limit g"
  shows "limit (insertOrdered g elem) = limit g \<and>
         (grouper_inv g \<longrightarrow> grouper_inv (insertOrdered g elem)) \<and>
         (topGroups g = [] \<longrightarrow> grouper_inv (foldl insertOrdered g elems))"
proof -
  have "grouper_inv g" if "topGroups g = []"
    using that assms by (simp add: grouper_inv_def)
  then show ?thesis
    using assms by (simp add: insertOrdered_inv foldl_insertOrdered_inv)
qed

theorem insertOrdered_invariant_witness:
  "1 \<le> limit (newGrouper 2 :: string grouper) \<and>
   grouper_inv (newGrouper 2 :: string grouper) \<and>
   grouper_inv (insertOrdered (newGrouper 2) \<lparr>Value = ''a'', Count = 1, docIDs = [7]\<rparr>) \<and>
   topGroups (newGrouper 2 :: string grouper) = [] \<and>
   grouper_inv (foldl insertOrdered (newGrouper 2)
      [\<lparr>Value = ''c'', Count = 1, docIDs = [9]\<rparr>,
       \<lparr>Value = ''a'', Count = 2, docIDs = [1, 2]\<rparr>,
       \<lparr>Value = ''b'', Count = 3, docIDs = [6, 7, 8]\<rparr>])"
  using insertOrdered_invariant[of "newGrouper 2 :: string grouper"
      "\<lparr>Value = ''a'', Count = 1, docIDs = [7]\<rparr>"
      "[\<lparr>Value = ''c'', Count = 1, docIDs = [9]\<rparr>,
       \<lparr>Value = ''a'', Count = 2, docIDs = [1, 2]\<rparr>,
       \<lparr>Value = ''b'', Count = 3, docIDs = [6, 7, 8]\<rparr>]"]
  by (simp add: newGrouper_def grouper_inv_def)

text \<open>
  Claim C7.  The selection is to return at most \<open>limit\<close> groups.  With the
  limit 0 and the tally \<open>{A: 5 ids}\<close> it returns one group: the first
  insertion into the empty list returns before the limit is looked at.  With
  two entries the result for the limit 0 depends on the order in which the
  tally is ranged over.
\<close>

theorem aggregateAndSelect_limit_zero:
  "aggregateAndSelect \<lparr>values_of = [(''A'', [1, 2, 3, 4, 5])], topGroups = [], limit = 0\<rparr> =
     [\<lparr>Value = ''A'', Count = 5, docIDs = [1, 2, 3, 4, 5]\<rparr>] \<and>
   aggregateAndSelect \<lparr>values_of = [(''A'', [1, 2, 3, 4, 5]), (''B'', [6, 7, 8])], topGroups = [], limit = 0\<rparr> = [] \<and>
   aggregateAndSelect \<lparr>values_of = [(''B'', [6, 7, 8]), (''A'', [1, 2, 3, 4, 5])], topGroups = [], limit = 0\<rparr> =
     [\<lparr>Value = ''A'', Count = 5, docIDs = [1, 2, 3, 4, 5]\<rparr>]"
  by (simp add: aggregateAndSelect_def insertOrdered_def mk_group_def)

text \<open>
  The scenario \<open>{A: 5, B: 3, C: 1}\<close> with the limit 2: for each of the six
  iteration orders the selection is \<open>[A, B]\<close>.
\<close>

lemma aggregateAndSelect_example:
  "\<forall>vs \<in> set [ [(''A'', [1, 2, 3, 4, 5]), (''B'', [6, 7, 8]), (''C'', [9])],
                [(''A'', [1, 2, 3, 4, 5]), (''C'', [9]), (''B'', [6, 7, 8])],
                [(''B'', [6, 7, 8]), (''A'', [1, 2, 3, 4, 5]), (''C'', [9])],
                [(''B'', [6, 7, 8]), (''C'', [9]), (''A'', [1, 2, 3, 4, 5])],
                [(''C'', [9]), (''A'', [1, 2, 3, 4, 5]), (''B'', [6, 7, 8])],
                [(''C'', [9]), (''B'', [6, 7, 8]), (''A'', [1, 2, 3, 4, 5])] ].
     aggregateAndSelect \<lparr>values_of = vs, topGroups = [], limit = 2\<rparr> =
       [\<lparr>Value = ''A'', Count = 5, docIDs = [1, 2, 3, 4, 5]\<rparr>,
        \<lparr>Value = ''B'', Count = 3, docIDs = [6, 7, 8]\<rparr>]"
  by (simp add: aggregateAndSelect_def insertOrdered_def mk_group_def)

section \<open>Properties of the merge\<close>

subsection \<open>The counting loop\<close>

lemma cnt_found_incr: "cnt (found_incr m i) j = cnt m j + (if i = j then 1 else 0)"
  by (induction m i rule: found_incr.induct) (auto simp: cnt_def)

lemma keys_found_incr: "fst ` set (found_incr m i) = insert i (fst ` set m)"
  by (induction m i rule: found_incr.induct) auto

lemma distinct_found_incr: "distinct (map fst m) \<Longrightarrow> distinct (map fst (found_incr m i))"
  by (induction m i rule: found_incr.induct) (auto simp: keys_found_incr)

lemma pos_found_incr: "\<forall>e\<in>set m. 0 < snd e \<Longrightarrow> \<forall>e\<in>set (found_incr m i). 0 < snd e"
  by (induction m i rule: found_incr.induct) auto

lemma found_ok_incr: "found_ok m \<Longrightarrow> found_ok (found_incr m i)"
  unfolding found_ok_def using distinct_found_incr[of m i] pos_found_incr[of m i] by blast

lemma foldl_found_incr:
  "found_ok m \<Longrightarrow>
   found_ok (foldl (\<lambda>found' pointer. found_incr found' (ptr_id pointer)) m ps) \<and>
   (\<forall>j. cnt (foldl (\<lambda>found' pointer. found_incr found' (ptr_id pointer)) m ps) j =
        cnt m j + count_list (map ptr_id ps) j)"
  by (induction ps arbitrary: m) (auto simp: found_ok_incr cnt_found_incr)

lemma foldl_sets:
  "found_ok m \<Longrightarrow>
   found_ok (foldl (\<lambda>found set'. foldl (\<lambda>found' pointer. found_incr found' (ptr_id pointer))
                                 found (docIDs set')) m sets) \<and>
   (\<forall>j. cnt (foldl (\<lambda>found set'. foldl (\<lambda>found' pointer. found_incr found' (ptr_id pointer))
                                 found (docIDs set')) m sets) j = cnt m j + occurrences sets j)"
proof (induction sets arbitrary: m)
  case Nil
  then show ?case by (simp add: occurrences_def)
next
  case (Cons s sets)
  from foldl_found_incr[OF Cons.prems, of "docIDs s"]
  have ok: "found_ok (foldl (\<lambda>found' pointer. found_incr found' (ptr_id pointer)) m (docIDs s))"
    and c: "\<And>j. cnt (foldl (\<lambda>found' pointer. found_incr found' (ptr_id pointer)) m (docIDs s)) j =
        cnt m j + count_list (map ptr_id (docIDs s)) j" by auto
  from Cons.IH[OF ok] show ?case
    by (simp add: c occurrences_def ids_of_def)
qed

text \<open>
  After the counting loop the map \<open>found\<close> holds exactly the document ids
  that occur in some list, each with the number of its occurrences.
\<close>

lemma count_found_ok: "found_ok (count_found sets)"
  and count_found_cnt: "cnt (count_found sets) j = occurrences sets j"
  using foldl_sets[of "[]" sets] by (simp_all add: count_found_def found_ok_def cnt_def)

lemma found_ok_mem: "found_ok m \<Longrightarrow> (i, c) \<in> set m \<longleftrightarrow> (cnt m i = c \<and> 0 < c)"
proof
  assume ok: "found_ok m" and mem: "(i, c) \<in> set m"
  then have "map_of m i = Some c" by (simp add: found_ok_def)
  moreover have "0 < c" using ok mem by (auto simp: found_ok_def)
  ultimately show "cnt m i = c \<and> 0 < c" by (simp add: cnt_def)
next
  assume ok: "found_ok m" and c: "cnt m i = c \<and> 0 < c"
  then have "map_of m i = Some c" by (auto simp: cnt_def split: option.splits)
  then show "(i, c) \<in> set m" by (rule map_of_SomeD)
qed

lemma count_found_mem:
  "(i, c) \<in> set (count_found sets) \<longleftrightarrow> (occurrences sets i = c \<and> 0 < c)"
  using found_ok_mem[OF count_found_ok, of i c sets] by (simp add: count_found_cnt)

lemma count_found_distinct: "distinct (map fst (count_found sets))"
  using count_found_ok[of sets] by (simp add: found_ok_def)


lemma sum_list_le_length:
  "(\<forall>x\<in>set xs. f x \<le> (1::nat)) \<Longrightarrow> sum_list (map f xs) \<le> length xs"
  by (induction xs) (auto simp: le_Suc_eq)

lemma sum_list_eq_length:
  "(\<forall>x\<in>set xs. f x \<le> (1::nat)) \<Longrightarrow>
   sum_list (map f xs) = length xs \<longleftrightarrow> (\<forall>x\<in>set xs. f x = 1)"
proof (induction xs)
  case Nil
  then show ?case by simp
next
  case (Cons x xs)
  then have le: "sum_list (map f xs) \<le> length xs" by (intro sum_list_le_length) simp
  have "f x \<le> 1" using Cons.prems by simp
  with Cons le show ?case by auto
qed

lemma count_list_distinct: "distinct xs \<Longrightarrow> count_list xs i = (if i \<in> set xs then 1 else 0)"
  by (induction xs) auto

lemma occurrences_all:
  assumes "\<forall>s\<in>set sets. distinct (ids_of s)"
  shows "occurrences sets i = length sets \<longleftrightarrow> (\<forall>s\<in>set sets. i \<in> set (ids_of s))"
proof -
  have "\<forall>s\<in>set sets. count_list (ids_of s) i \<le> 1"
    using assms by (simp add: count_list_distinct)
  from sum_list_eq_length[OF this] show ?thesis
    using assms by (simp add: occurrences_def count_list_distinct)
qed

text \<open>
  When \<open>mergeDocIDs\<close> succeeds on every child, the retrieval loop returns the
  children's lists in order.
\<close>

lemma retrieve_Inr:
  "map (\<lambda>c. mergeDocIDs env c acc) cs = map Inr sets \<Longrightarrow> retrieve env cs i acc = Inr sets"
proof (induction cs arbitrary: sets i)
  case Nil
  then show ?case by simp
next
  case (Cons c cs)
  then obtain s ss where "sets = s # ss" by (cases sets) auto
  with Cons show ?case by simp
qed

lemma ptr_id_new [simp]: "ptr_id (new_pointer i) = i"
  by (simp add: new_pointer_def)

lemma ids_of_new [simp]: "map (ptr_id \<circ> new_pointer) is = is"
  by (induction "is") auto

lemma range_order_set: "mset (r m) = mset m \<Longrightarrow> set (r m) = set m"
  by (rule mset_eq_setD)

lemma range_order_distinct:
  assumes "mset (r m) = mset m" "distinct (map fst m)"
  shows "distinct (map fst (r m))"
proof -
  have "mset (map fst (r m)) = mset (map fst m)" using assms(1) by (metis mset_map)
  then show ?thesis using assms(2) by (metis mset_eq_imp_distinct_iff)
qed

lemma checksumsIdentical_iff:
  "checksumsIdentical sets \<longleftrightarrow> sets \<noteq> [] \<and> (\<forall>s\<in>set sets. checksum s = checksum (hd sets))"
proof (cases sets)
  case Nil
  then show ?thesis by (simp add: checksumsIdentical_def)
next
  case (Cons a as)
  then show ?thesis by (cases as) (auto simp: checksumsIdentical_def list_all_iff)
qed


subsection \<open>Claims about the merge\<close>

lemma ids_of_posting [simp]: "ids_of (posting ids cs) = ids"
  by (simp add: ids_of_def posting_def)

text \<open>
  Claim C1, as amended.  For an AND clause whose children's lists are not
  all of the same checksum, \<open>mergeAnd\<close> returns a list without repeated ids
  in which an id survives if and only if the number of its occurrences in
  all the children's lists, repeated pointers counted, equals the number of
  children; when no child's list repeats an id, these are exactly the ids
  present in every child's list.  The children are not empty, every child's
  list is retrieved without an error, and the checksum of the surviving ids
  can be computed.
\<close>

theorem mergeAnd_counts:
  assumes lists: "map (\<lambda>c. mergeDocIDs env c acceptDuplicates) cs = map Inr sets"
    and nonempty: "cs \<noteq> []"
    and differ: "\<not> checksumsIdentical sets"
    and order: "\<forall>m. mset (range_order env m) = mset m"
    and sums: "\<forall>is. \<exists>c. docPointerChecksum env is = Inr c"
  shows "\<exists>out. mergeAnd env cs acceptDuplicates = Inr out \<and>
           distinct (ids_of out) \<and>
           (\<forall>i. i \<in> set (ids_of out) \<longleftrightarrow> occurrences sets i = length sets) \<and>
           ((\<forall>s\<in>set sets. distinct (ids_of s)) \<longrightarrow>
              set (ids_of out) = (\<Inter>s\<in>set sets. set (ids_of s)))"
proof -
  define found where "found = count_found sets"
  define ids where "ids = map fst (filter (\<lambda>(i, count). count = length sets) (range_order env found))"
  obtain c where c: "docPointerChecksum env ids = Inr c" using sums by blast
  define out where "out = \<lparr>docIDs = map new_pointer ids, checksum = c\<rparr>"
  have len: "length sets = length cs" using lists by (metis length_map)
  then have pos: "0 < length sets" using nonempty by simp
  have "retrieve env cs 0 acceptDuplicates = Inr sets" using lists by (rule retrieve_Inr)
  then have res: "mergeAnd env cs acceptDuplicates = Inr out"
    using differ c by (simp add: mergeAnd_def mergeAnd_sets_def Let_def found_def ids_def out_def)
  have io: "ids_of out = ids" by (simp add: ids_of_def out_def)
  have setr: "set (range_order env found) = set found" using order by (simp add: range_order_set)
  have "distinct (map fst (range_order env found))"
    using order count_found_distinct[of sets] by (simp add: range_order_distinct found_def)
  then have d: "distinct ids" unfolding ids_def by (rule distinct_map_filter)
  have mem: "i \<in> set ids \<longleftrightarrow> occurrences sets i = length sets" for i
  proof -
    have "i \<in> set ids \<longleftrightarrow> (i, length sets) \<in> set (range_order env found)"
      unfolding ids_def by (auto simp: image_iff)
    also have "\<dots> \<longleftrightarrow> (i, length sets) \<in> set found"
      by (simp only: setr)
    also have "\<dots> \<longleftrightarrow> occurrences sets i = length sets"
      using pos by (simp add: found_def count_found_mem)
    finally show ?thesis .
  qed
  have inter: "set ids = (\<Inter>s\<in>set sets. set (ids_of s))"
    if "\<forall>s\<in>set sets. distinct (ids_of s)"
  proof (rule set_eqI)
    fix i
    show "i \<in> set ids \<longleftrightarrow> i \<in> (\<Inter>s\<in>set sets. set (ids_of s))"
      by (simp only: mem occurrences_all[OF that] INT_iff)
  qed
  show ?thesis
  proof (intro exI[of _ out] conjI allI impI)
    show "mergeAnd env cs acceptDuplicates = Inr out" by (rule res)
    show "distinct (ids_of out)" by (simp only: io d)
    show "i \<in> set (ids_of out) \<longleftrightarrow> occurrences sets i = length sets" for i
      by (simp only: io mem)
    show "set (ids_of out) = (\<Inter>s\<in>set sets. set (ids_of s))"
      if "\<forall>s\<in>set sets. distinct (ids_of s)"
      using inter[OF that] by (simp only: io)
  qed
qed

theorem mergeAnd_counts_witness:
  "\<not> checksumsIdentical [posting [1, 2, 3] [1], posting [2, 3, 4] [2]] \<and>
   (\<exists>out. mergeAnd example_env
             [leaf ''a'' OperatorEqual (posting [1, 2, 3] [1]),
              leaf ''b'' OperatorEqual (posting [2, 3, 4] [2])] False = Inr out \<and>
          distinct (ids_of out) \<and>
          (\<forall>i. i \<in> set (ids_of out) \<longleftrightarrow>
               occurrences [posting [1, 2, 3] [1], posting [2, 3, 4] [2]] i = 2) \<and>
          set (ids_of out) = {2, 3})"
proof -
  have d: "\<not> checksumsIdentical [posting [1, 2, 3] [1], posting [2, 3, 4] [2]]"
    by (simp add: checksumsIdentical_def posting_def)
  have l: "map (\<lambda>c. mergeDocIDs example_env c False)
             [leaf ''a'' OperatorEqual (posting [1, 2, 3] [1]),
              leaf ''b'' OperatorEqual (posting [2, 3, 4] [2])] =
           map Inr [posting [1, 2, 3] [1], posting [2, 3, 4] [2]]"
    by (simp add: leaf_def)
  have o: "\<forall>m. mset (range_order example_env m) = mset m" by (simp add: example_env_def)
  have s: "\<forall>is. \<exists>c. docPointerChecksum example_env is = Inr c" by (simp add: example_env_def)
  have i: "(\<Inter>s\<in>set [posting [1, 2, 3] [1], posting [2, 3, 4] [2]]. set (ids_of s)) = {2, 3 :: 64 word}"
    by auto
  from mergeAnd_counts[OF l _ d o s] d i show ?thesis by (simp add: numeral_2_eq_2)
qed

text \<open>
  Claim C1 as stated fails for a child whose list repeats an id: with the
  lists \<open>[1, 1]\<close> and \<open>[2]\<close> the id 1 has two occurrences, which is the
  number of children, and survives, although the second list does not hold
  it.
\<close>

theorem mergeAnd_duplicates_counterexample:
  "\<not> checksumsIdentical [posting [1, 1] [1], posting [2] [2]] \<and>
   mergeAnd example_env
     [leaf ''a'' OperatorEqual (posting [1, 1] [1]),
      leaf ''b'' OperatorEqual (posting [2] [2])] True = Inr (posting [1] [1]) \<and>
   (1 :: 64 word) \<notin> set (ids_of (posting [2] [2]))"
  by (simp add: checksumsIdentical_def posting_def leaf_def mergeAnd_def mergeAnd_sets_def
        count_found_def example_env_def new_pointer_def ids_of_def)






text \<open>
  Claim C3.  For a non-empty list of children whose lists all have the
  checksum of the first, in particular for a single child, \<open>mergeAnd\<close> and
  \<open>mergeOr\<close> both return the first child's list as it is, whether or not
  duplicates are accepted.
\<close>

theorem merge_identical_checksums:
  assumes lists: "map (\<lambda>c. mergeDocIDs env c acceptDuplicates) cs = map Inr sets"
    and nonempty: "sets \<noteq> []"
    and same: "\<forall>s\<in>set sets. checksum s = checksum (hd sets)"
  shows "checksumsIdentical sets \<and>
         mergeAnd env cs acceptDuplicates = Inr (hd sets) \<and>
         mergeOr env cs acceptDuplicates = Inr (hd sets)"
proof -
  have ci: "checksumsIdentical sets"
    unfolding checksumsIdentical_iff using nonempty same by blast
  have hd: "sets ! 0 = hd sets" using nonempty by (simp add: hd_conv_nth)
  have "retrieve env cs 0 acceptDuplicates = Inr sets" using lists by (rule retrieve_Inr)
  then show ?thesis using ci hd
    by (simp add: mergeAnd_def mergeAnd_sets_def mergeOr_sets_def)
qed

theorem merge_identical_checksums_witness:
  "checksumsIdentical [posting [1, 2] [7], posting [2, 1] [7], posting [1, 2] [7]] \<and>
   mergeAnd example_env
     [leaf ''a'' OperatorEqual (posting [1, 2] [7]),
      leaf ''b'' OperatorEqual (posting [2, 1] [7]),
      leaf ''c'' OperatorEqual (posting [1, 2] [7])] True = Inr (posting [1, 2] [7]) \<and>
   mergeOr example_env
     [leaf ''a'' OperatorEqual (posting [1, 2] [7]),
      leaf ''b'' OperatorEqual (posting [2, 1] [7]),
      leaf ''c'' OperatorEqual (posting [1, 2] [7])] True = Inr (posting [1, 2] [7]) \<and>
   mergeOr example_env [leaf ''a'' OperatorEqual (posting [5] [9])] False = Inr (posting [5] [9])"
proof -
  have l: "map (\<lambda>c. mergeDocIDs example_env c True)
             [leaf ''a'' OperatorEqual (posting [1, 2] [7]),
              leaf ''b'' OperatorEqual (posting [2, 1] [7]),
              leaf ''c'' OperatorEqual (posting [1, 2] [7])] =
           map Inr [posting [1, 2] [7], posting [2, 1] [7], posting [1, 2] [7]]"
    by (simp add: leaf_def)
  have l1: "map (\<lambda>c. mergeDocIDs example_env c False) [leaf ''a'' OperatorEqual (posting [5] [9])] =
            map Inr [posting [5] [9]]"
    by (simp add: leaf_def)
  have c: "\<forall>s\<in>set [posting [1, 2] [7], posting [2, 1] [7], posting [1, 2] [7]].
             checksum s = checksum (hd [posting [1, 2] [7], posting [2, 1] [7], posting [1, 2] [7]])"
    by (simp add: posting_def)
  from merge_identical_checksums[OF l _ c] merge_identical_checksums[OF l1]
  show ?thesis by simp
qed

section \<open>Properties of the fetch\<close>

text \<open>
  Every read of a posting list that a fetch makes has the limit of the
  fetch or the limit 0, and the limit 0 when the clause is an internal
  node; the reads for a list of children all have the limit 0.
\<close>

lemma fetch_limits:
  "(\<forall>c\<in>set (fst (fetchDocIDs s pv lim td)). snd c = lim \<or> snd c = 0) \<and>
   (\<not> OnValue (operator pv) \<longrightarrow> (\<forall>c\<in>set (fst (fetchDocIDs s pv lim td)). snd c = 0))"
  "\<forall>c\<in>set (fst (fetch_children s cs i td)). snd c = 0"
proof (induction s pv lim td and s cs i td rule: fetchDocIDs_fetch_children.induct)
  case (1 s p oper v vg hf ids cs lim tolerateDuplicates)
  show ?case
  proof (cases "OnValue oper")
    case True
    then show ?thesis by (simp add: Let_def split: sum.splits)
  next
    case False
    with 1 show ?thesis by (auto split: prod.splits sum.splits)
  qed
next
  case (2 s i tolerateDuplicates)
  then show ?case by simp
next
  case (3 s child rest i tolerateDuplicates)
  show ?case
  proof (cases "fetchDocIDs s child 0 tolerateDuplicates")
    case (Pair calls r)
    show ?thesis
    proof (cases r)
      case (Inl e)
      with Pair 3(1) show ?thesis by auto
    next
      case (Inr child')
      with Pair 3(1) 3(2)[OF Pair[symmetric] Inr] show ?thesis
        by (auto split: prod.splits sum.splits)
    qed
  qed
qed

lemma fetch_nonleaf_limit:
  "\<not> OnValue (operator pv) \<Longrightarrow> fetchDocIDs s pv lim td = fetchDocIDs s pv 0 td"
  by (cases pv) simp

text \<open>The leaf branch of \<open>fetchDocIDs\<close> in terms of the receiver after the renaming.\<close>

lemma fetchDocIDs_leaf:
  assumes "OnValue (operator pv)"
  shows "fetchDocIDs s pv lim td =
     (if store_Bucket s (fetch_bucket s pv) = None \<and> operator pv \<noteq> OperatorWithinGeoRange
      then ([], Inl (Error (''bucket for prop '' @ pv_prop (fetch_receiver s pv) @
                              '' not found - is it indexed?'')))
      else (case docPointers_of s (fetch_bucket s pv) (store_Bucket s (fetch_bucket s pv)) lim
                   (fetch_receiver s pv) td of
              Inl err \<Rightarrow> ([(fetch_bucket s pv, lim)], Inl err)
            | Inr pointers \<Rightarrow>
                ([(fetch_bucket s pv, lim)],
                 Inr (PropValuePair (pv_prop (fetch_receiver s pv)) (operator pv) (value_bytes pv)
                        (valueGeoRange pv) (hasFrequency (fetch_receiver s pv)) pointers
                        (children pv)))))"
proof (cases pv)
  case (PropValuePair p oper v vg hf ids cs)
  show ?thesis
  proof (cases "p = ''id''")
    case True
    with assms PropValuePair show ?thesis
      by (auto simp: fetch_receiver_def fetch_bucket_def Let_def split: sum.splits)
  next
    case False
    with assms PropValuePair show ?thesis
      by (auto simp: fetch_receiver_def fetch_bucket_def Let_def split: sum.splits)
  qed
qed

text \<open>
  Claim C9.  For a clause that is not a leaf and every limit of the parent,
  every read of a posting list made for the clause, at any depth below it,
  has the limit 0; the parent's limit plays no part in the result.
\<close>

theorem fetchDocIDs_children_unlimited:
  assumes "\<not> OnValue (operator pv)"
  shows "(\<forall>c\<in>set (fst (fetchDocIDs s pv lim td)). snd c = 0) \<and>
         fetchDocIDs s pv lim td = fetchDocIDs s pv 0 td"
  using assms fetch_limits(1)[of s pv lim td] fetch_nonleaf_limit[of pv s lim td]
  by blast

theorem fetchDocIDs_children_unlimited_witness:
  "\<not> OnValue OperatorAnd \<and>
   map snd (fst (fetchDocIDs example_searcher
       (PropValuePair '''' OperatorAnd [] None False (posting [] [])
          [leaf ''stringProp'' OperatorEqual (posting [] []),
           PropValuePair '''' OperatorOr [] None False (posting [] [])
             [leaf ''stringProp'' OperatorLike (posting [] [])]]) 10 False)) = [0, 0] \<and>
   fetchDocIDs example_searcher
     (PropValuePair '''' OperatorAnd [] None False (posting [] [])
        [leaf ''stringProp'' OperatorEqual (posting [] []),
         PropValuePair '''' OperatorOr [] None False (posting [] [])
           [leaf ''stringProp'' OperatorLike (posting [] [])]]) 10 False =
     ([(''property_stringProp'', 0), (''property_stringProp'', 0)],
      Inr (PropValuePair '''' OperatorAnd [] None False (posting [] [])
        [leaf ''stringProp'' OperatorEqual (posting [1, 2] [3]),
         PropValuePair '''' OperatorOr [] None False (posting [] [])
           [leaf ''stringProp'' OperatorLike (posting [1, 2] [3])]]))"
  using fetchDocIDs_children_unlimited[of
     "PropValuePair '''' OperatorAnd [] None False (posting [] [])
        [leaf ''stringProp'' OperatorEqual (posting [] []),
         PropValuePair '''' OperatorOr [] None False (posting [] [])
           [leaf ''stringProp'' OperatorLike (posting [] [])]]" example_searcher 10 False]
  by (simp add: example_searcher_def leaf_def)

text \<open>
  Claim C5.  For a leaf clause, whose operator operates on a value, and a
  store without a bucket for the property: unless the operator is
  \<open>WithinGeoRange\<close>, the fetch reads no posting list and fails with the error
  \<open>bucket for prop <name> not found - is it indexed?\<close>, where the name is the
  property's (for the property \<open>id\<close>, its internal name); when the operator
  is \<open>WithinGeoRange\<close>, the posting list is read without a bucket, and the
  fetch fails only with an error of that read.
\<close>

theorem fetchDocIDs_missing_bucket:
  assumes "OnValue (operator pv)"
    and "store_Bucket s (fetch_bucket s pv) = None"
  shows "(operator pv \<noteq> OperatorWithinGeoRange \<longrightarrow>
            fetchDocIDs s pv lim td =
              ([], Inl (Error (''bucket for prop '' @ pv_prop (fetch_receiver s pv) @
                               '' not found - is it indexed?'')))) \<and>
         (operator pv = OperatorWithinGeoRange \<longrightarrow>
            fst (fetchDocIDs s pv lim td) = [(fetch_bucket s pv, lim)] \<and>
            (\<forall>err. snd (fetchDocIDs s pv lim td) = Inl err \<longleftrightarrow>
                   docPointers_of s (fetch_bucket s pv) None lim (fetch_receiver s pv) td = Inl err))"
  unfolding fetchDocIDs_leaf[OF assms(1)] using assms(2)
  by (simp split: sum.splits)

theorem fetchDocIDs_missing_bucket_witness:
  "OnValue OperatorEqual \<and> OnValue OperatorWithinGeoRange \<and>
   store_Bucket example_searcher
     (fetch_bucket example_searcher (leaf ''hiddenStringProp'' OperatorEqual (posting [] []))) = None \<and>
   store_Bucket example_searcher
     (fetch_bucket example_searcher (leaf ''geo'' OperatorWithinGeoRange (posting [] []))) = None \<and>
   fetchDocIDs example_searcher (leaf ''hiddenStringProp'' OperatorEqual (posting [] [])) 10 False =
     ([], Inl (Error ''bucket for prop hiddenStringProp not found - is it indexed?'')) \<and>
   fst (fetchDocIDs example_searcher (leaf ''geo'' OperatorWithinGeoRange (posting [] [])) 10 False) =
     [(''property_geo'', 10)] \<and>
   (\<forall>err. snd (fetchDocIDs example_searcher
                  (leaf ''geo'' OperatorWithinGeoRange (posting [] [])) 10 False) \<noteq> Inl err)"
proof -
  have b1: "store_Bucket example_searcher
     (fetch_bucket example_searcher (leaf ''hiddenStringProp'' OperatorEqual (posting [] []))) = None"
    by (simp add: example_searcher_def fetch_bucket_def fetch_receiver_def leaf_def)
  have b2: "store_Bucket example_searcher
     (fetch_bucket example_searcher (leaf ''geo'' OperatorWithinGeoRange (posting [] []))) = None"
    by (simp add: example_searcher_def fetch_bucket_def fetch_receiver_def leaf_def)
  have o1: "OnValue (operator (leaf ''hiddenStringProp'' OperatorEqual (posting [] [])))"
    by (simp add: leaf_def)
  have o2: "OnValue (operator (leaf ''geo'' OperatorWithinGeoRange (posting [] [])))"
    by (simp add: leaf_def)
  have n: "pv_prop (fetch_receiver example_searcher
                     (leaf ''hiddenStringProp'' OperatorEqual (posting [] []))) = ''hiddenStringProp''"
    "fetch_bucket example_searcher (leaf ''geo'' OperatorWithinGeoRange (posting [] [])) = ''property_geo''"
    "operator (leaf ''hiddenStringProp'' OperatorEqual (posting [] [])) = OperatorEqual"
    "operator (leaf ''geo'' OperatorWithinGeoRange (posting [] [])) = OperatorWithinGeoRange"
    "\<And>b lim pv td. docPointers_of example_searcher ''property_geo'' b lim pv td = Inr (posting [1, 2] [3])"
    by (simp_all add: example_searcher_def fetch_bucket_def fetch_receiver_def leaf_def)
  from fetchDocIDs_missing_bucket[OF o1 b1, of 10 False]
       fetchDocIDs_missing_bucket[OF o2 b2, of 10 False] b1 b2
  show ?thesis by (simp add: n)
qed

section \<open>Properties of the validation\<close>

text \<open>
  The model agrees with the expectations of the test of the explorer: a
  value of the base type is accepted on an array property, and the test's
  failures are reported with the identifiers the expected messages name.
\<close>

lemma ValidateFilters_array_tag_ok:
  assumes "resolve_path sch c path = Inr pr"
    and "path \<noteq> [''id'']"
    and "prop_DataType pr = Primitive dt"
    and "IsArrayType dt = Some baseType"
  shows "ValidateFilters sch c (Leaf oper path baseType) = None"
  using assms by (simp add: check_tag_def)

lemma ValidateFilters_test_cases:
  "ValidateFilters schemaForFiltersValidation ''ClassOne''
     (Leaf OperatorEqual [''string_array_prop''] DataTypeString) = None"
  "ValidateFilters schemaForFiltersValidation ''ClassOne''
     (Leaf OperatorEqual [''string_array_prop''] DataTypeText) =
     Some (CannotUse DataTypeText DataTypeStringArray DataTypeString)"
  "ValidateFilters schemaForFiltersValidation ''ClassOne''
     (Leaf OperatorEqual [''ref_prop'', ''ClassTwo'', ''string_prop''] DataTypeString) = None"
  "ValidateFilters schemaForFiltersValidation ''ClassOne''
     (Leaf OperatorEqual [''ref_prop'', ''ClassThree'', ''string_prop''] DataTypeString) =
     Some (ClassDoesNotExist ''ClassThree'')"
  "ValidateFilters schemaForFiltersValidation ''ClassOne''
     (Leaf OperatorEqual [''ref_prop'', ''ClassTwo'', ''invalid_prop''] DataTypeString) =
     Some (NoSuchProp ''invalid_prop'' ''ClassTwo'')"
  "ValidateFilters schemaForFiltersValidation ''ClassOne''
     (Leaf OperatorEqual [''ref_prop''] DataTypeInt) = None"
  "ValidateFilters schemaForFiltersValidation ''ClassOne''
     (Leaf OperatorEqual [''ref_prop''] DataTypeString) =
     Some (RefPropNeedsValueInt ''ref_prop'' ''ClassTwo'')"
  "ValidateFilters schemaForFiltersValidation ''ClassOne''
     (Leaf OperatorEqual [''id''] DataTypeInt) = Some IdNeedsValueString"
  "ValidateFilters schemaForFiltersValidation ''ClassOne''
     (Node OperatorAnd [Leaf OperatorEqual [''string_prop''] DataTypeString,
                        Leaf OperatorEqual [''string_prop''] DataTypeInt]) =
     Some (ChildOperand 1 (CannotUse DataTypeInt DataTypeString DataTypeString))"
  by (simp_all add: schemaForFiltersValidation_def check_tag_def)

text \<open>
  Claim C6.  For every property of an array type that a path resolves to
  and every value tag other than the scalar base type of the array,
  \<open>ValidateFilters\<close> rejects the leaf filter, and the error names the
  offending tag, the declared type and the base type as the tag to use
  instead.
\<close>

theorem ValidateFilters_array_tag:
  assumes "resolve_path sch c path = Inr pr"
    and "path \<noteq> [''id'']"
    and "prop_DataType pr = Primitive dt"
    and "IsArrayType dt = Some baseType"
    and "tag \<noteq> baseType"
  shows "ValidateFilters sch c (Leaf oper path tag) = Some (CannotUse tag dt baseType)"
  using assms by (simp add: check_tag_def)

theorem ValidateFilters_array_tag_witness:
  "resolve_path schemaForFiltersValidation ''ClassOne'' [''number_array_prop''] =
     Inr \<lparr>prop_Name = ''number_array_prop'', prop_DataType = Primitive DataTypeNumberArray,
          prop_MoreDataTypes = []\<rparr> \<and>
   [''number_array_prop''] \<noteq> [''id''] \<and>
   IsArrayType DataTypeNumberArray = Some DataTypeNumber \<and>
   DataTypeNumberArray \<noteq> DataTypeNumber \<and>
   ValidateFilters schemaForFiltersValidation ''ClassOne''
     (Leaf OperatorEqual [''number_array_prop''] DataTypeNumberArray) =
     Some (CannotUse DataTypeNumberArray DataTypeNumberArray DataTypeNumber)"
proof -
  have r: "resolve_path schemaForFiltersValidation ''ClassOne'' [''number_array_prop''] =
     Inr \<lparr>prop_Name = ''number_array_prop'', prop_DataType = Primitive DataTypeNumberArray,
          prop_MoreDataTypes = []\<rparr>"
    by (simp add: schemaForFiltersValidation_def)
  from ValidateFilters_array_tag[OF r, of DataTypeNumberArray DataTypeNumber DataTypeNumberArray OperatorEqual] r
  show ?thesis by simp
qed

section \<open>Properties of recovery from the write-ahead log\<close>

lemma length_enc_len [simp]: "length (enc_len w n) = w"
  by (induction w arbitrary: n) auto

lemma dec_enc_len: "n < 256 ^ w \<Longrightarrow> dec_len (enc_len w n) = n"
proof (induction w arbitrary: n)
  case 0
  then show ?case by simp
next
  case (Suc w)
  have "n div 256 < 256 ^ w" using Suc.prems by (simp add: less_mult_imp_div_less mult.commute)
  then have "dec_len (enc_len w (n div 256)) = n div 256" by (rule Suc.IH)
  moreover have "unat (of_nat (n mod 256) :: 8 word) = n mod 256"
    by (simp add: unat_of_nat)
  ultimately show ?case by simp
qed

lemma length_enc_field [simp]: "length (enc_field xs) = 8 + length xs"
  by (simp add: enc_field_def)

text \<open>A field is read back whole, and not at all from a field that is cut.\<close>

lemma read_enc_field:
  "length xs < 2 ^ 64 \<Longrightarrow> read_field (enc_field xs @ rest) = Some (xs, rest)"
  using dec_enc_len[of "length xs" 8]
  by (simp add: read_field_def enc_field_def)

lemma read_cut_field:
  assumes "length xs < 2 ^ 64" "j < length (enc_field xs)"
  shows "read_field (take j (enc_field xs)) = None"
proof (cases "j < 8")
  case True
  then show ?thesis by (simp add: read_field_def)
next
  case False
  then have "take j (enc_field xs) = enc_len 8 (length xs) @ take (j - 8) xs"
    by (simp add: enc_field_def)
  moreover have "j - 8 < length xs" using assms(2) False by simp
  ultimately show ?thesis
    using dec_enc_len[of "length xs" 8] assms(1) by (simp add: read_field_def)
qed

text \<open>A record is read back whole, and a record that is cut is recognised.\<close>

lemma parse_encode_op:
  "op_ok o' \<Longrightarrow> parse_record (encode_op o' @ rest) = Record o' rest"
  by (cases o') (simp_all add: op_ok_def encode_op_def parse_record_def read_enc_field)

lemma parse_cut_op:
  assumes "op_ok o'" "0 < j" "j < length (encode_op o')"
  shows "parse_record (take j (encode_op o')) = CutShort"
proof (cases o')
  case (Put k v)
  obtain j' where j: "j = Suc j'" using assms(2) by (cases j) auto
  have lk: "length k < 2 ^ 64" and lv: "length v < 2 ^ 64"
    using assms(1) Put by (simp_all add: op_ok_def)
  show ?thesis
  proof (cases "j' < length (enc_field k)")
    case True
    then have "take j (encode_op o') = 0 # take j' (enc_field k)"
      by (simp add: Put j encode_op_def)
    then show ?thesis
      using read_cut_field[OF lk True] by (simp add: parse_record_def)
  next
    case False
    then have "take j (encode_op o') =
               0 # enc_field k @ take (j' - length (enc_field k)) (enc_field v)"
      by (simp add: Put j encode_op_def)
    moreover have "j' - length (enc_field k) < length (enc_field v)"
      using assms(3) Put j False by (simp add: encode_op_def)
    ultimately show ?thesis
      using read_cut_field[OF lv, of "j' - length (enc_field k)"] read_enc_field[OF lk]
      by (simp add: parse_record_def del: length_enc_field)
  qed
next
  case (Delete k)
  obtain j' where j: "j = Suc j'" using assms(2) by (cases j) auto
  have lk: "length k < 2 ^ 64" using assms(1) Delete by (simp add: op_ok_def)
  have lt: "j' < length (enc_field k)" using assms(3) Delete j by (simp add: encode_op_def)
  have "take j (encode_op o') = 1 # take j' (enc_field k)"
    by (simp add: Delete j encode_op_def)
  then show ?thesis
    using read_cut_field[OF lk lt] by (simp add: parse_record_def)
qed

lemma replay_encoded:
  "list_all op_ok ops \<Longrightarrow>
   replay m (concat (map encode_op ops) @ rest) = replay (foldl apply_op m ops) rest"
proof (induction ops arbitrary: m)
  case Nil
  then show ?case by simp
next
  case (Cons o' ops)
  then have "parse_record (encode_op o' @ concat (map encode_op ops) @ rest) =
             Record o' (concat (map encode_op ops) @ rest)"
    by (simp add: parse_encode_op)
  then have "replay m (concat (map encode_op (o' # ops)) @ rest) =
             replay (apply_op m o') (concat (map encode_op ops) @ rest)"
    by (subst replay.simps) simp
  with Cons show ?case by simp
qed

lemma replay_empty: "replay m [] = Inr m"
  by (subst replay.simps) (simp add: parse_record_def)

lemma replay_cut: "parse_record bs = CutShort \<Longrightarrow> replay m bs = Inr m"
  by (subst replay.simps) simp

lemma wal_writes:
  "wal (foldl bucket_write b ops) = wal b @ concat (map encode_op ops)"
  by (induction ops arbitrary: b) (auto simp: bucket_write_def)

lemma memtable_writes:
  "memtable_of (foldl bucket_write b ops) = foldl apply_op (memtable_of b) ops"
  by (induction ops arbitrary: b) (auto simp: bucket_write_def)

lemma NewBucket_log:
  assumes "list_all op_ok ops"
  shows "NewBucket (concat (map encode_op ops)) =
         Inr \<lparr>memtable_of = foldl apply_op Map.empty ops, wal = concat (map encode_op ops)\<rparr>"
  using replay_encoded[OF assms, of Map.empty "[]"]
  by (simp add: NewBucket_def replay_empty)

lemma NewBucket_cut:
  assumes "list_all op_ok ops" "op_ok o'" "j < length (encode_op o')"
  shows "NewBucket (concat (map encode_op ops) @ take j (encode_op o')) =
         Inr \<lparr>memtable_of = foldl apply_op Map.empty ops,
              wal = concat (map encode_op ops) @ take j (encode_op o')\<rparr>"
proof (cases "j = 0")
  case True
  then show ?thesis using NewBucket_log[OF assms(1)] by simp
next
  case False
  then have "parse_record (take j (encode_op o')) = CutShort"
    using assms by (intro parse_cut_op) auto
  then have "replay (foldl apply_op Map.empty ops) (take j (encode_op o')) =
             Inr (foldl apply_op Map.empty ops)" by (rule replay_cut)
  then show ?thesis
    using replay_encoded[OF assms(1), of Map.empty "take j (encode_op o')"]
    by (simp add: NewBucket_def)
qed

text \<open>
  Claim C4.  For every sequence of \<open>Put\<close> and \<open>Delete\<close> operations written to
  a bucket, a bucket opened over the log that these writes left recovers
  without an error and has the same value, or none, for every key; and when
  the last \<open>n\<close> bytes of the log are removed, \<open>n\<close> being positive and at most
  the size of the last record, the bucket opened over the rest recovers
  without an error and has, for every key, the state of all the operations
  before the last.
\<close>

theorem wal_recovery:
  assumes sizes: "list_all op_ok ops"
  shows "(\<exists>b'. NewBucket (wal (foldl bucket_write empty_bucket ops)) = Inr b' \<and>
               (\<forall>k. Get b' k = Get (foldl bucket_write empty_bucket ops) k)) \<and>
         (ops \<noteq> [] \<longrightarrow>
            (\<forall>n. 0 < n \<and> n \<le> length (encode_op (last ops)) \<longrightarrow>
               (\<exists>b'. NewBucket (take (length (wal (foldl bucket_write empty_bucket ops)) - n)
                                      (wal (foldl bucket_write empty_bucket ops))) = Inr b' \<and>
                     (\<forall>k. Get b' k =
                          Get (foldl bucket_write empty_bucket (butlast ops)) k))))"
proof (intro conjI impI allI)
  show "\<exists>b'. NewBucket (wal (foldl bucket_write empty_bucket ops)) = Inr b' \<and>
             (\<forall>k. Get b' k = Get (foldl bucket_write empty_bucket ops) k)"
    using NewBucket_log[OF sizes]
    by (simp add: wal_writes memtable_writes empty_bucket_def Get_def)
next
  fix n
  assume ne: "ops \<noteq> []" and n: "0 < n \<and> n \<le> length (encode_op (last ops))"
  define pre where "pre = butlast ops"
  define o' where "o' = last ops"
  have ops: "ops = pre @ [o']" using ne by (simp add: pre_def o'_def)
  have okp: "list_all op_ok pre" and oko: "op_ok o'" using sizes ops by simp_all
  define j where "j = length (encode_op o') - n"
  have jl: "j < length (encode_op o')" using n unfolding j_def o'_def by linarith
  have w: "wal (foldl bucket_write empty_bucket ops) = concat (map encode_op pre) @ encode_op o'"
    unfolding ops wal_writes by (simp add: empty_bucket_def)
  have "take (length (wal (foldl bucket_write empty_bucket ops)) - n)
             (wal (foldl bucket_write empty_bucket ops)) =
        concat (map encode_op pre) @ take j (encode_op o')"
  proof -
    have n': "n \<le> length (encode_op o')" using n by (simp add: o'_def)
    have "length (concat (map encode_op pre) @ encode_op o') - n =
          length (concat (map encode_op pre)) + j"
      using n' by (simp add: j_def)
    then show ?thesis unfolding w by simp
  qed
  then show "\<exists>b'. NewBucket (take (length (wal (foldl bucket_write empty_bucket ops)) - n)
                                (wal (foldl bucket_write empty_bucket ops))) = Inr b' \<and>
               (\<forall>k. Get b' k = Get (foldl bucket_write empty_bucket (butlast ops)) k)"
    using NewBucket_cut[OF okp oko jl]
    by (simp add: memtable_writes empty_bucket_def Get_def pre_def)
qed

theorem wal_recovery_witness:
  "list_all op_ok test_ops \<and> test_ops \<noteq> [] \<and>
   (0::nat) < 6 \<and> 6 \<le> length (encode_op (last test_ops)) \<and>
   (\<exists>b'. NewBucket (wal (foldl bucket_write empty_bucket test_ops)) = Inr b' \<and>
         Get b' [1] = Some [10, 11] \<and> Get b' [2] = None \<and> Get b' [3] = Some [32, 33, 34]) \<and>
   (\<exists>b'. NewBucket (take (length (wal (foldl bucket_write empty_bucket test_ops)) - 6)
                          (wal (foldl bucket_write empty_bucket test_ops))) = Inr b' \<and>
         Get b' [1] = Some [10, 11] \<and> Get b' [2] = None \<and> Get b' [3] = Some [30, 31])"
proof -
  have ok: "list_all op_ok test_ops" by (simp add: test_ops_def op_ok_def)
  have le: "6 \<le> length (encode_op (last test_ops))"
    by (simp add: test_ops_def encode_op_def enc_field_def)
  have g: "Get (foldl bucket_write empty_bucket test_ops) [1] = Some [10, 11]"
    "Get (foldl bucket_write empty_bucket test_ops) [2] = None"
    "Get (foldl bucket_write empty_bucket test_ops) [3] = Some [32, 33, 34]"
    "Get (foldl bucket_write empty_bucket (butlast test_ops)) [1] = Some [10, 11]"
    "Get (foldl bucket_write empty_bucket (butlast test_ops)) [2] = None"
    "Get (foldl bucket_write empty_bucket (butlast test_ops)) [3] = Some [30, 31]"
    by (simp_all add: test_ops_def Get_def bucket_write_def apply_op_def empty_bucket_def)
  have ne: "test_ops \<noteq> []" by (simp add: test_ops_def)
  from wal_recovery[OF ok] ne le g ok show ?thesis by (metis zero_less_numeral)
qed

end
